theory Spec2Isabelle
  imports Complex_Main
begin

section \<open>The notebooks and what is modelled\<close>

text \<open>
  The repository holds two notebooks. \<^emph>\<open>Cross Validation\<close> builds a pipeline of a mean
  imputer and a random forest regressor, scores it with five-fold cross-validation and
  prints the per-fold and the average mean absolute error. \<^emph>\<open>Data Leakage\<close> scores a
  random forest classifier the same way and then compares, for card holders and for the
  others, the share of rows whose expenditure is zero.

  The cells that compute something themselves (the comparison of the two shares, the
  sign flip and the average of the scores) are embedded below as they are written. The
  fold splitter, the pipeline and the evaluator are calls into a library whose source is
  not part of the repository; their models are marked as such where they are defined.
\<close>

section \<open>Floating-point values\<close>

text \<open>
  A cell of a numeric column, and the result of a mean, is a 64-bit float. It is
  modelled by the exact rational it stands for, or \<open>NaN\<close> (a missing cell, or the mean
  of nothing).
\<close>

datatype float64 = NaN | Fin rat

text \<open>
  \<open>rne_div a b\<close> is the integer nearest to \<open>a / b\<close>, a tie going to the even one: the
  rounding of IEEE 754 arithmetic and of the decimal conversion of \<open>'%.2f'\<close>.
\<close>

definition rne_div :: "int \<Rightarrow> int \<Rightarrow> int" where
  "rne_div a b =
     (let q = a div b; r = a mod b
      in if 2 * r < b then q
         else if b < 2 * r then q + 1
         else if even q then q else q + 1)"

definition mant_lo :: int where
  "mant_lo = 2 ^ 52"

text \<open>
  The float quotient of two counts \<open>k\<close> and \<open>n\<close> (both below \<open>2 ^ 53\<close>, so that their
  conversion to float is exact, and \<open>k \<le> n\<close>): \<open>binade\<close> finds the least \<open>e\<close> with
  \<open>2 ^ 52 \<le> k * 2 ^ e / n\<close>, and the quotient is the 53-bit significand nearest to
  \<open>k * 2 ^ e / n\<close>, scaled back.
\<close>

function binade :: "int \<Rightarrow> int \<Rightarrow> nat \<Rightarrow> nat" where
  "binade k n e = (if k \<le> 0 \<or> n * mant_lo \<le> k * 2 ^ e then e else binade k n (Suc e))"
  by pat_completeness auto
termination
proof (relation "measure (\<lambda>(k, n, e). nat (n * mant_lo - k * 2 ^ e))")
  show "wf (measure (\<lambda>(k, n, e). nat (n * mant_lo - k * 2 ^ e)))" by simp
next
  fix k n :: int and e :: nat
  assume "\<not> (k \<le> 0 \<or> n * mant_lo \<le> k * 2 ^ e)"
  then have k: "0 < k" and lt: "k * 2 ^ e < n * mant_lo" by auto
  have "k * 2 ^ e < k * 2 ^ Suc e" using k by simp
  with lt have "nat (n * mant_lo - k * 2 ^ Suc e) < nat (n * mant_lo - k * 2 ^ e)"
    by linarith
  then show "((k, n, Suc e), (k, n, e)) \<in> measure (\<lambda>(k, n, e). nat (n * mant_lo - k * 2 ^ e))"
    by (simp only: in_measure prod.case)
qed

declare binade.simps [simp del]

definition double_quot :: "nat \<Rightarrow> nat \<Rightarrow> rat" where
  "double_quot k n =
     (let e = binade (int k) (int n) 0
      in of_int (rne_div (int k * 2 ^ e) (int n)) / 2 ^ e)"

text \<open>
  \<open>'%.2f' % x\<close>: the decimal with two fractional digits nearest to the exact value of
  the float, a tie going to the even digit; \<open>nan\<close> for a NaN.
\<close>

definition digit :: "int \<Rightarrow> char" where
  "digit d = ''0123456789'' ! nat d"

function digits :: "int \<Rightarrow> string" where
  "digits n = (if n < 10 then [digit n] else digits (n div 10) @ [digit (n mod 10)])"
  by pat_completeness auto
termination
  by (relation "measure nat") auto

declare digits.simps [simp del]

definition fmt2 :: "float64 \<Rightarrow> string" where
  "fmt2 x =
     (case x of
        NaN \<Rightarrow> ''nan''
      | Fin r \<Rightarrow>
          (let (p, q) = quotient_of \<bar>r\<bar>;
               h = rne_div (p * 100) q
           in (if r < 0 then ''-'' else '''') @ digits (h div 100) @ ''.''
              @ [digit (h mod 100 div 10), digit (h mod 10)]))"

section \<open>Data Leakage: the comparison of the two groups\<close>

text \<open>
  \<^verbatim>\<open>
  data = pd.read_csv('data/AER_credit_card_data.csv', true_values=['yes'], false_values=['no'])
  y = data.card
  X = data.drop(['card'], axis=1)

  expenditures_cardholders = X.expenditure[y]
  expenditures_noncardholders = X.expenditure[~y]

  print('Fraction of those who did not receive a card and had no expenditures: %.2f' \
        %((expenditures_noncardholders == 0).mean()))
  print('Fraction of those who received a card and had no expenditures: %.2f' \
        %(( expenditures_cardholders == 0).mean()))
  \<close>
  A row of the frame keeps the two columns the cell reads (\<open>card\<close> is written
  \<open>card_col\<close>, the name \<open>card\<close> being the cardinality of a set here). A series is a
  column with its row labels; the frame is read from a file, so the labels are
  \<open>0, 1, ...\<close> in row order.
\<close>

record row =
  card_col :: bool
  expenditure :: float64

type_synonym 'a series = "(nat \<times> 'a) list"

definition column :: "('r \<Rightarrow> 'a) \<Rightarrow> 'r list \<Rightarrow> 'a series" where
  "column f data = zip [0..<length data] (map f data)"

text \<open>\<open>~y\<close>, the mask negated elementwise.\<close>

definition invert :: "bool series \<Rightarrow> bool series" where
  "invert m = map (\<lambda>(i, b). (i, \<not> b)) m"

text \<open>
  \<open>s[m]\<close> for a boolean mask \<open>m\<close>: the entries of \<open>s\<close> where the mask holds, labels
  kept. Both series are columns of one frame here, so the mask lines up row by row.
\<close>

definition select :: "'a series \<Rightarrow> bool series \<Rightarrow> 'a series" where
  "select s m = map fst (filter (\<lambda>(x, (j, b)). b) (zip s m))"

text \<open>\<open>s == 0\<close>: elementwise, false on a NaN.\<close>

definition eq_zero :: "float64 series \<Rightarrow> bool series" where
  "eq_zero s = map (\<lambda>(i, v). (i, v = Fin 0)) s"

text \<open>
  \<open>.mean()\<close> of a boolean series: the count of true entries divided by the length, in
  float arithmetic; NaN for the empty series (no exception is raised).
\<close>

definition mean_bool :: "bool series \<Rightarrow> float64" where
  "mean_bool s =
     (if s = [] then NaN
      else Fin (double_quot (length (filter snd s)) (length s)))"

definition expenditures_cardholders :: "row list \<Rightarrow> float64 series" where
  "expenditures_cardholders data = select (column expenditure data) (column card_col data)"

definition expenditures_noncardholders :: "row list \<Rightarrow> float64 series" where
  "expenditures_noncardholders data =
     select (column expenditure data) (invert (column card_col data))"

text \<open>The two printed lines, in the order of the two \<open>print\<close> calls.\<close>

definition leakage_report :: "row list \<Rightarrow> string list" where
  "leakage_report data =
     [''Fraction of those who did not receive a card and had no expenditures: ''
        @ fmt2 (mean_bool (eq_zero (expenditures_noncardholders data))),
      ''Fraction of those who received a card and had no expenditures: ''
        @ fmt2 (mean_bool (eq_zero (expenditures_cardholders data)))]"

text \<open>
  The specification's wording of the same quantity, for comparison with the cell: among
  the rows whose target is \<open>t\<close>, the fraction whose feature is zero, as a float; NaN
  when no row has target \<open>t\<close>.
\<close>

definition fraction_zero :: "bool \<Rightarrow> row list \<Rightarrow> float64" where
  "fraction_zero t data =
     (let cls = filter (\<lambda>r. card_col r = t) data
      in if cls = [] then NaN
         else Fin (double_quot (length (filter (\<lambda>r. expenditure r = Fin 0) cls))
                               (length cls)))"

text \<open>
  The conditional fraction itself, as an exact number: the rows of target \<open>t\<close> whose
  feature is zero, counted, over the rows of target \<open>t\<close>, counted.
\<close>

definition exact_fraction :: "bool \<Rightarrow> row list \<Rightarrow> rat" where
  "exact_fraction t data =
     of_nat (length (filter (\<lambda>r. card_col r = t \<and> expenditure r = Fin 0) data))
       / of_nat (length (filter (\<lambda>r. card_col r = t) data))"

text \<open>
  The scenario of the specification: every row without a card has expenditure zero, and
  exactly 2 of exactly 100 rows with a card have.
\<close>

definition leakage_scenario :: "row list \<Rightarrow> bool" where
  "leakage_scenario data \<longleftrightarrow>
     (\<forall>r \<in> set data. \<not> card_col r \<longrightarrow> expenditure r = Fin 0)
     \<and> length (filter card_col data) = 100
     \<and> length (filter (\<lambda>r. card_col r \<and> expenditure r = Fin 0) data) = 2"

definition holder :: "rat \<Rightarrow> row" where
  "holder v = \<lparr>card_col = True, expenditure = Fin v\<rparr>"

definition nonholder :: "rat \<Rightarrow> row" where
  "nonholder v = \<lparr>card_col = False, expenditure = Fin v\<rparr>"

section \<open>Cross Validation: the sign flip and the average\<close>

text \<open>
  \<^verbatim>\<open>
  # Multiply by -1 since sklearn calculates *negative* MAE
  scores = -1 * cross_val_score(my_pipeline, X, y,
                                cv=5,
                                scoring='neg_mean_absolute_error')
  print("MAE scores:\n", scores)
  print("Average MAE score (across experiments):")
  print(scores.mean())
  \<close>
  What the fitted pipelines predict is the library's business; a fold is given here by
  its held-out rows, each a pair of the true target and the prediction made for it. The
  scoring named in the call is the mean absolute error with its sign flipped, one value
  per fold, in fold order. Scores are modelled by exact rationals: the rounding of the
  float sums plays no part in the sign.
\<close>

type_synonym fold_result = "(rat \<times> rat) list"

definition mean_absolute_error :: "fold_result \<Rightarrow> rat" where
  "mean_absolute_error r = (\<Sum>(y, p) \<leftarrow> r. \<bar>y - p\<bar>) / of_nat (length r)"

definition neg_mean_absolute_error :: "fold_result \<Rightarrow> rat" where
  "neg_mean_absolute_error r = - mean_absolute_error r"

definition cross_val_score_neg_mae :: "fold_result list \<Rightarrow> rat list" where
  "cross_val_score_neg_mae folds = map neg_mean_absolute_error folds"

definition scores :: "fold_result list \<Rightarrow> rat list" where
  "scores folds = map (\<lambda>s. - 1 * s) (cross_val_score_neg_mae folds)"

text \<open>\<open>.mean()\<close> of an array: NaN for the empty array.\<close>

definition np_mean :: "rat list \<Rightarrow> float64" where
  "np_mean xs = (if xs = [] then NaN else Fin (sum_list xs / of_nat (length xs)))"

definition average_score :: "fold_result list \<Rightarrow> float64" where
  "average_score folds = np_mean (scores folds)"

section \<open>Cross Validation: splitter, pipeline and evaluator\<close>

text \<open>
  \<^verbatim>\<open>
  my_pipeline = Pipeline(steps=[('preprocessor', SimpleImputer()),
                                ('model', RandomForestRegressor(n_estimators=50,
                                                                random_state=0))])
  scores = -1 * cross_val_score(my_pipeline, X, y, cv=5,
                                scoring='neg_mean_absolute_error')

  my_pipeline = make_pipeline(RandomForestClassifier(n_estimators=100))
  cv_scores = cross_val_score(my_pipeline, X, y, cv=5, scoring='accuracy')
  \<close>
  The notebooks build the pipelines and call the evaluator; how rows are split into
  folds, how a pipeline is fitted and how the folds are scored is library code outside
  the repository. The definitions of this section follow the specification's
  description of these components instead, and say so.
\<close>

text \<open>
  Modelled from the spec: the error kinds of its error handling design. The notebooks
  define no error of their own.
\<close>

datatype error = InvalidConfiguration | FitError | ScoringError

text \<open>
  Modelled from the spec: the size of fold \<open>f\<close> of the Fold Partitioner, which the
  notebook reaches through \<open>cross_val_score(cv=5)\<close>. Each fold has \<open>N div K\<close> rows or one
  more, and the larger folds are the earliest fold ids.
\<close>

definition fold_size :: "nat \<Rightarrow> nat \<Rightarrow> nat \<Rightarrow> nat" where
  "fold_size N K f = N div K + (if f < N mod K then 1 else 0)"

text \<open>
  Modelled from the spec: the fold-id array of the Fold Partitioner in its default mode,
  contiguous blocks in row order. The optional shuffle mode is left out: the notebooks
  never ask for it, and the specification does not say how a seed orders the rows.
\<close>

definition fold_ids :: "nat \<Rightarrow> nat \<Rightarrow> nat list" where
  "fold_ids N K = concat (map (\<lambda>f. replicate (fold_size N K f) f) [0..<K])"

text \<open>
  Modelled from the spec: the row at which the block of fold \<open>f\<close> starts, the sizes
  of the folds before it added up.
\<close>

definition fold_start :: "nat \<Rightarrow> nat \<Rightarrow> nat \<Rightarrow> nat" where
  "fold_start N K f = sum_list (map (fold_size N K) [0..<f])"

text \<open>
  Modelled from the spec: the Fold Partitioner's contract, failing with
  InvalidConfiguration if \<open>K < 2\<close> or \<open>K > N\<close>.
\<close>

definition fold_partitioner :: "nat \<Rightarrow> nat \<Rightarrow> error + nat list" where
  "fold_partitioner N K =
     (if K < 2 \<or> N < K then Inl InvalidConfiguration else Inr (fold_ids N K))"

text \<open>
  Modelled from the spec: the training rows of fold \<open>f\<close> in step 1 of the
  Cross-Validation Evaluator, all rows with a fold id other than \<open>f\<close>, by row index.
\<close>

definition training_rows :: "nat list \<Rightarrow> nat \<Rightarrow> nat list" where
  "training_rows ids f = filter (\<lambda>i. ids ! i \<noteq> f) [0..<length ids]"

text \<open>
  Modelled from the spec: the held-out rows of fold \<open>f\<close> in the same step, the rows with
  fold id \<open>f\<close>.
\<close>

definition held_out_rows :: "nat list \<Rightarrow> nat \<Rightarrow> nat list" where
  "held_out_rows ids f = filter (\<lambda>i. ids ! i = f) [0..<length ids]"

text \<open>
  Modelled from the spec: the data the Model Pipeline works on. A row of features is a
  list of cells, one per column, \<open>NaN\<close> for a missing cell; a sample is a row with its
  target. A learner turns training samples into a prediction function: the forests of
  the notebooks are learners, and library code. A pipeline is an ordered list of
  transform stages followed by a predictor; the one transform the notebooks use is the
  mean imputer.
\<close>

type_synonym features = "float64 list"
type_synonym sample = "features \<times> rat"
type_synonym learner = "sample list \<Rightarrow> features \<Rightarrow> rat"

datatype stage = SimpleImputer

record pipeline =
  steps :: "stage list"
  model :: learner

text \<open>
  Modelled from the spec: the non-missing values of column \<open>j\<close> in the data passed to
  the imputer.
\<close>

definition observed :: "nat \<Rightarrow> features list \<Rightarrow> rat list" where
  "observed j rows = concat (map (\<lambda>r. case r ! j of NaN \<Rightarrow> [] | Fin v \<Rightarrow> [v]) rows)"

text \<open>Modelled from the spec: the column mean, the arithmetic mean of these values.\<close>

definition column_mean :: "rat list \<Rightarrow> rat" where
  "column_mean vs = sum_list vs / of_nat (length vs)"

text \<open>
  Modelled from the spec: fitting the imputer stage. It computes the mean of every
  column from the training data passed to it, and fails with a FitError if a column has
  no non-missing value.
\<close>

definition imputer_fit :: "nat \<Rightarrow> features list \<Rightarrow> error + rat list" where
  "imputer_fit ncols rows =
     (if list_ex (\<lambda>j. observed j rows = []) [0..<ncols] then Inl FitError
      else Inr (map (\<lambda>j. column_mean (observed j rows)) [0..<ncols]))"

text \<open>
  Modelled from the spec: applying the fitted imputer, which fills the missing cells of
  a row with the fitted column means and leaves the other cells as they are.
\<close>

definition imputer_transform :: "rat list \<Rightarrow> features \<Rightarrow> features" where
  "imputer_transform means x =
     map (\<lambda>(m, c). case c of NaN \<Rightarrow> Fin m | Fin v \<Rightarrow> Fin v) (zip means x)"

text \<open>
  Modelled from the spec: fitting the transform stages of the Model Pipeline in order,
  each on the training data as the stages before it have transformed them. The result
  is the fitted stages and the transformed training rows.
\<close>

fun fit_stages :: "nat \<Rightarrow> stage list \<Rightarrow> features list \<Rightarrow> error + (rat list list \<times> features list)" where
  "fit_stages ncols [] rows = Inr ([], rows)"
| "fit_stages ncols (SimpleImputer # ss) rows =
     (case imputer_fit ncols rows of
        Inl e \<Rightarrow> Inl e
      | Inr means \<Rightarrow>
          (case fit_stages ncols ss (map (imputer_transform means) rows) of
             Inl e \<Rightarrow> Inl e
           | Inr (fs, out) \<Rightarrow> Inr (means # fs, out)))"

text \<open>Modelled from the spec: applying the fitted transform stages to a row, in order.\<close>

definition apply_stages :: "rat list list \<Rightarrow> features \<Rightarrow> features" where
  "apply_stages fs x = foldl (\<lambda>x means. imputer_transform means x) x fs"

text \<open>
  Modelled from the spec: fitting the Model Pipeline on training samples: the stages
  first, then the predictor on the transformed rows and their targets.
\<close>

definition pipeline_fit ::
  "nat \<Rightarrow> pipeline \<Rightarrow> sample list \<Rightarrow> error + (rat list list \<times> (features \<Rightarrow> rat))" where
  "pipeline_fit ncols p train =
     (case fit_stages ncols (steps p) (map fst train) of
        Inl e \<Rightarrow> Inl e
      | Inr (fs, out) \<Rightarrow> Inr (fs, model p (zip out (map snd train))))"

text \<open>
  Modelled from the spec: predicting with a fitted pipeline: the row goes through the
  fitted stages, and the fitted predictor sees the result.
\<close>

definition pipeline_predict :: "rat list list \<times> (features \<Rightarrow> rat) \<Rightarrow> features \<Rightarrow> rat" where
  "pipeline_predict fitted x = snd fitted (apply_stages (fst fitted) x)"

text \<open>
  Modelled from the spec: one fold of the Cross-Validation Evaluator (steps 1 to 5): a
  fresh pipeline is fitted on the training rows only, predicts the held-out rows only,
  and the scoring function compares the predictions with the held-out targets. An empty
  held-out set is a ScoringError.
\<close>

definition evaluate_fold ::
  "nat \<Rightarrow> pipeline \<Rightarrow> (fold_result \<Rightarrow> rat) \<Rightarrow> sample list \<Rightarrow> nat list \<Rightarrow> nat \<Rightarrow> error + rat" where
  "evaluate_fold ncols p scoring data ids f =
     (let train = map (\<lambda>i. data ! i) (training_rows ids f);
          held = map (\<lambda>i. data ! i) (held_out_rows ids f)
      in case pipeline_fit ncols p train of
           Inl e \<Rightarrow> Inl e
         | Inr fitted \<Rightarrow>
             if held = [] then Inl ScoringError
             else Inr (scoring (map (\<lambda>(x, y). (y, pipeline_predict fitted x)) held)))"

text \<open>
  Modelled from the spec: the folds of the Cross-Validation Evaluator run in fold
  order, and any error ends the run with no score returned.
\<close>

fun run_folds :: "(nat \<Rightarrow> error + rat) \<Rightarrow> nat list \<Rightarrow> error + rat list" where
  "run_folds ev [] = Inr []"
| "run_folds ev (f # fs) =
     (case ev f of
        Inl e \<Rightarrow> Inl e
      | Inr s \<Rightarrow> (case run_folds ev fs of Inl e \<Rightarrow> Inl e | Inr ss \<Rightarrow> Inr (s # ss)))"

text \<open>
  Modelled from the spec: the Cross-Validation Evaluator, from the dataset, the
  pipeline, \<open>K\<close> and the scoring function to the sequence of the \<open>K\<close> scores in fold
  order.
\<close>

definition cross_validate ::
  "nat \<Rightarrow> pipeline \<Rightarrow> (fold_result \<Rightarrow> rat) \<Rightarrow> sample list \<Rightarrow> nat \<Rightarrow> error + rat list" where
  "cross_validate ncols p scoring data K =
     (case fold_partitioner (length data) K of
        Inl e \<Rightarrow> Inl e
      | Inr ids \<Rightarrow> run_folds (evaluate_fold ncols p scoring data ids) [0..<K])"

section \<open>The random state of the two forests\<close>

text \<open>
  \<^verbatim>\<open>
  RandomForestRegressor(n_estimators=50, random_state=0)      # Cross Validation
  RandomForestClassifier(n_estimators=100)                    # Data Leakage
  \<close>
  A forest draws its bootstrap samples and feature subsets from a generator. With
  \<open>random_state\<close> given, the generator is seeded with it each time the forest is fitted;
  without, the forest draws from the generator of the process, whose state is not an
  input of the notebook and differs from run to run (\<open>ambient\<close> below).
\<close>

record forest =
  n_estimators :: nat
  random_state :: "nat option"

definition regressor_forest :: forest where
  "regressor_forest = \<lparr>n_estimators = 50, random_state = Some 0\<rparr>"

definition classifier_forest :: forest where
  "classifier_forest = \<lparr>n_estimators = 100, random_state = None\<rparr>"

definition generator_seed :: "forest \<Rightarrow> nat \<Rightarrow> nat" where
  "generator_seed m ambient = (case random_state m of Some s \<Rightarrow> s | None \<Rightarrow> ambient)"

text \<open>
  The two pipelines of the notebooks, over any forest algorithm \<open>rf\<close> that maps the
  number of trees and the seed of its generator to a learner.
\<close>

definition cross_validation_pipeline :: "(nat \<Rightarrow> nat \<Rightarrow> learner) \<Rightarrow> nat \<Rightarrow> pipeline" where
  "cross_validation_pipeline rf ambient =
     \<lparr>steps = [SimpleImputer],
      model = rf (n_estimators regressor_forest) (generator_seed regressor_forest ambient)\<rparr>"

definition data_leakage_pipeline :: "(nat \<Rightarrow> nat \<Rightarrow> learner) \<Rightarrow> nat \<Rightarrow> pipeline" where
  "data_leakage_pipeline rf ambient =
     \<lparr>steps = [],
      model = rf (n_estimators classifier_forest) (generator_seed classifier_forest ambient)\<rparr>"

text \<open>A learner for concrete runs: it predicts the mean training target.\<close>

definition mean_target :: learner where
  "mean_target train x = column_mean (map snd train)"

section \<open>Properties of the float model\<close>

lemma binade_scale:
  assumes c: "0 < c"
  shows "binade (c * k) (c * n) e = binade k n e"
proof (induction k n e rule: binade.induct)
  case (1 k n e)
  have a: "(c * k \<le> 0) = (k \<le> 0)"
    using c by (simp add: mult_le_0_iff)
  have "(c * n * mant_lo \<le> c * k * 2 ^ e) = (c * (n * mant_lo) \<le> c * (k * 2 ^ e))"
    by (simp add: mult.assoc)
  also have "\<dots> = (n * mant_lo \<le> k * 2 ^ e)"
    using c by simp
  finally have b: "(c * n * mant_lo \<le> c * k * 2 ^ e) = (n * mant_lo \<le> k * 2 ^ e)" .
  show ?case
  proof (cases "k \<le> 0 \<or> n * mant_lo \<le> k * 2 ^ e")
    case True
    then show ?thesis
      by (subst binade.simps, subst (2) binade.simps) (simp add: a b)
  next
    case False
    with "1.IH" have "binade (c * k) (c * n) (Suc e) = binade k n (Suc e)" by simp
    with False show ?thesis
      by (subst binade.simps, subst (2) binade.simps) (simp add: a b)
  qed
qed

lemma rne_div_scale:
  assumes c: "0 < c"
  shows "rne_div (c * a) (c * b) = rne_div a b"
proof -
  have d: "(c * a) div (c * b) = a div b" using c by simp
  have m: "(c * a) mod (c * b) = c * (a mod b)" using c by simp
  have l: "(2 * (c * (a mod b)) < c * b) = (2 * (a mod b) < b)"
    using c mult_less_cancel_left_pos [of c "2 * (a mod b)" b] by (simp add: mult.left_commute)
  have g: "(c * b < 2 * (c * (a mod b))) = (b < 2 * (a mod b))"
    using c mult_less_cancel_left_pos [of c b "2 * (a mod b)"] by (simp add: mult.left_commute)
  show ?thesis
    unfolding rne_div_def Let_def d m l g ..
qed

text \<open>The float quotient depends on the ratio of the two counts only.\<close>

lemma double_quot_scale:
  assumes c: "0 < c"
  shows "double_quot (c * k) (c * n) = double_quot k n"
proof -
  have ic: "(0::int) < int c" using c by simp
  have "rne_div (int (c * k) * 2 ^ e) (int (c * n)) = rne_div (int k * 2 ^ e) (int n)" for e
    using rne_div_scale [OF ic, of "int k * 2 ^ e" "int n"] by (simp add: mult.assoc)
  moreover have "binade (int (c * k)) (int (c * n)) 0 = binade (int k) (int n) 0"
    using binade_scale [OF ic, of "int k" "int n" 0] by simp
  ultimately show ?thesis
    unfolding double_quot_def Let_def by simp
qed

lemma double_quot_one: "double_quot 1 1 = 1"
  by code_simp

lemma double_quot_self:
  assumes "0 < n"
  shows "double_quot n n = 1"
  using double_quot_scale [OF assms, of 1 1] double_quot_one by simp

lemma double_quot_2_100: "double_quot 2 100 = 5764607523034235 / 2 ^ 58"
  by code_simp

lemma binade_exit:
  "0 < k \<Longrightarrow> n * mant_lo \<le> k * 2 ^ binade k n e"
proof (induction k n e rule: binade.induct)
  case (1 k n e)
  show ?case
  proof (cases "n * mant_lo \<le> k * 2 ^ e")
    case True
    then have "binade k n e = e" by (subst binade.simps) simp
    with True show ?thesis by simp
  next
    case False
    with "1.prems" have "binade k n e = binade k n (Suc e)"
      by (subst binade.simps) simp
    with "1.IH" False "1.prems" show ?thesis by simp
  qed
qed

lemma rne_div_error:
  assumes b: "0 < b"
  shows "\<bar>2 * (rne_div a b * b - a)\<bar> \<le> b"
proof -
  define q where "q = a div b"
  define r where "r = a mod b"
  have a: "a = q * b + r" by (simp add: q_def r_def)
  have r: "0 \<le> r" "r < b" using b by (simp_all add: r_def)
  have "rne_div a b = q \<and> 2 * r \<le> b \<or> rne_div a b = q + 1 \<and> b \<le> 2 * r"
    unfolding rne_div_def Let_def q_def [symmetric] r_def [symmetric] by auto
  then show ?thesis
  proof
    assume h: "rne_div a b = q \<and> 2 * r \<le> b"
    then have "rne_div a b * b - a = - r" using a by simp
    with h r show ?thesis by simp
  next
    assume h: "rne_div a b = q + 1 \<and> b \<le> 2 * r"
    then have "rne_div a b * b - a = b - r" using a by (simp add: algebra_simps)
    with h r show ?thesis by simp
  qed
qed

text \<open>
  The float quotient is the exact quotient up to a relative error of \<open>2 ^ -53\<close>, as
  IEEE 754 division is.
\<close>

lemma double_quot_error:
  assumes k: "0 < k" and n: "0 < n"
  shows "\<bar>double_quot k n - of_nat k / of_nat n\<bar> \<le> (of_nat k / of_nat n) / 2 ^ 53"
proof -
  define e where "e = binade (int k) (int n) 0"
  define m where "m = rne_div (int k * 2 ^ e) (int n)"
  define E :: rat where "E = 2 ^ e"
  define K :: rat where "K = of_nat k"
  define N :: rat where "N = of_nat n"
  define M :: rat where "M = of_int m"
  define P :: rat where "P = 2 ^ 52"
  have pos: "0 < E" "0 < N" "0 < K" "0 < P"
    using k n by (simp_all add: E_def N_def K_def P_def)
  have dq: "double_quot k n = M / E"
    by (simp add: double_quot_def Let_def e_def m_def M_def E_def)
  have "\<bar>2 * (m * int n - int k * 2 ^ e)\<bar> \<le> int n"
    using rne_div_error [of "int n" "int k * 2 ^ e"] n by (simp add: m_def)
  then have "(of_int \<bar>2 * (m * int n - int k * 2 ^ e)\<bar> :: rat) \<le> of_int (int n)"
    by (simp only: of_int_le_iff)
  then have "\<bar>2 * (M * N - K * E)\<bar> \<le> N"
    by (simp add: M_def N_def K_def E_def)
  then have "2 * \<bar>M * N - K * E\<bar> \<le> N"
    by (simp only: abs_mult abs_numeral)
  then have h1: "\<bar>M * N - K * E\<bar> \<le> N / 2"
    by simp
  have "int n * mant_lo \<le> int k * 2 ^ e"
    using binade_exit [of "int k" "int n" 0] k by (simp add: e_def)
  then have "(of_int (int n * mant_lo) :: rat) \<le> of_int (int k * 2 ^ e)"
    by (simp only: of_int_le_iff)
  then have h2: "N * P \<le> K * E"
    by (simp add: mant_lo_def N_def K_def E_def P_def)
  have d: "M / E - K / N = (M * N - K * E) / (E * N)"
    using pos by (simp add: field_simps)
  have "\<bar>M / E - K / N\<bar> = \<bar>M * N - K * E\<bar> / (E * N)"
    using pos by (simp add: d abs_mult)
  also have "\<dots> \<le> (N / 2) / (E * N)"
    using h1 pos by (intro divide_right_mono) simp_all
  also have "\<dots> = 1 / (2 * E)"
    using pos by simp
  also have "\<dots> \<le> K / N / (2 * P)"
  proof -
    have "N * (2 * P) \<le> K * (2 * E)" using h2 by simp
    then have "1 * (N * (2 * P)) \<le> K * (2 * E)" by simp
    then have "1 / (2 * E) \<le> K / (N * (2 * P))"
      using pos by (subst pos_le_divide_eq) (simp_all add: field_simps)
    then show ?thesis by simp
  qed
  finally have "\<bar>M / E - K / N\<bar> \<le> K / N / (2 * P)" .
  moreover have "2 * P = 2 ^ 53" by (simp add: P_def)
  ultimately show ?thesis
    by (simp only: dq K_def N_def)
qed

text \<open>
  A fraction of a class lies between 0 and 1, and so does its float; \<open>%.2f\<close> then prints
  one digit, the point and two digits, for the number of hundredths nearest to the
  float.
\<close>

lemma rne_div_nonneg:
  assumes "0 \<le> a" and "0 < b"
  shows "0 \<le> rne_div a b"
proof -
  have "0 \<le> a div b" using assms by (simp add: pos_imp_zdiv_nonneg_iff)
  then show ?thesis by (simp add: rne_div_def Let_def)
qed

lemma rne_div_le:
  assumes b: "0 < b" and le: "a \<le> c * b"
  shows "rne_div a b \<le> c"
proof -
  define q where "q = a div b"
  define r where "r = a mod b"
  have a: "a = q * b + r" by (simp add: q_def r_def)
  have r: "0 \<le> r" "r < b" using b by (simp_all add: r_def)
  have qc: "q \<le> c"
  proof (rule ccontr)
    assume "\<not> q \<le> c"
    then have "c + 1 \<le> q" by simp
    then have "(c + 1) * b \<le> q * b" using b by (simp add: mult_right_mono)
    with a r le b show False by (simp add: algebra_simps)
  qed
  show ?thesis
  proof (cases "r = 0")
    case True
    then have "rne_div a b = q"
      using b by (simp add: rne_div_def Let_def q_def [symmetric] r_def [symmetric])
    with qc show ?thesis by simp
  next
    case False
    have "q \<noteq> c"
    proof
      assume "q = c"
      with a le have "r \<le> 0" by simp
      with r False show False by simp
    qed
    with qc have "q + 1 \<le> c" by simp
    moreover have "rne_div a b \<le> q + 1"
      by (simp add: rne_div_def Let_def q_def [symmetric] r_def [symmetric])
    ultimately show ?thesis by simp
  qed
qed

lemma double_quot_range:
  assumes n: "0 < n" and kn: "k \<le> n"
  shows "0 \<le> double_quot k n" and "double_quot k n \<le> 1"
proof -
  define e where "e = binade (int k) (int n) 0"
  define m where "m = rne_div (int k * 2 ^ e) (int n)"
  have dq: "double_quot k n = of_int m / 2 ^ e"
    by (simp add: double_quot_def Let_def e_def m_def)
  have "0 \<le> m"
    unfolding m_def using n by (intro rne_div_nonneg) simp_all
  then show "0 \<le> double_quot k n" by (simp add: dq)
  have "int k * 2 ^ e \<le> 2 ^ e * int n"
    using kn by (simp add: mult.commute mult_left_mono)
  then have "m \<le> 2 ^ e"
    unfolding m_def using n by (intro rne_div_le) simp_all
  then have "(of_int m :: rat) \<le> of_int (2 ^ e)" by (simp only: of_int_le_iff)
  then show "double_quot k n \<le> 1" by (simp add: dq)
qed

lemma digits_one: "0 \<le> d \<Longrightarrow> d < 10 \<Longrightarrow> digits d = [digit d]"
  by (subst digits.simps) simp

lemma fmt2_unit:
  assumes v0: "0 \<le> v" and v1: "v \<le> 1"
  shows "\<exists>h. 0 \<le> h \<and> h \<le> 100 \<and> \<bar>of_int h / 100 - v\<bar> \<le> 1 / 200
    \<and> fmt2 (Fin v) = [''0123456789'' ! nat (h div 100), CHR ''.'',
         ''0123456789'' ! nat (h mod 100 div 10), ''0123456789'' ! nat (h mod 10)]"
proof -
  obtain p q where pq: "quotient_of v = (p, q)" by (cases "quotient_of v")
  have q: "0 < q" using pq by (rule quotient_of_denom_pos)
  have v: "v = of_int p / of_int q" using pq by (rule quotient_of_div)
  have p0: "0 \<le> p"
  proof -
    have "(0::rat) \<le> of_int p / of_int q" using v0 v by simp
    with q show ?thesis by (simp add: zero_le_divide_iff)
  qed
  have pq1: "p \<le> q"
  proof -
    have "(of_int p :: rat) / of_int q \<le> 1" using v1 v by simp
    with q have "(of_int p :: rat) \<le> of_int q" by (simp add: pos_divide_le_eq)
    then show ?thesis by (simp only: of_int_le_iff)
  qed
  define h where "h = rne_div (p * 100) q"
  have h0: "0 \<le> h" unfolding h_def using p0 q by (intro rne_div_nonneg) simp_all
  have h100: "h \<le> 100" unfolding h_def using pq1 q by (intro rne_div_le) simp_all
  have "\<bar>2 * (h * q - p * 100)\<bar> \<le> q"
    unfolding h_def by (rule rne_div_error [OF q])
  then have "(of_int \<bar>2 * (h * q - p * 100)\<bar> :: rat) \<le> of_int q"
    by (simp only: of_int_le_iff)
  then have e: "\<bar>2 * (of_int h * of_int q - of_int p * 100)\<bar> \<le> (of_int q :: rat)"
    by simp
  define H :: rat where "H = of_int h"
  define P :: rat where "P = of_int p"
  define Q :: rat where "Q = of_int q"
  have Q: "0 < Q" using q by (simp add: Q_def)
  have e': "2 * \<bar>H * Q - P * 100\<bar> \<le> Q"
    using e by (simp only: abs_mult abs_numeral H_def P_def Q_def)
  have "H / 100 - P / Q = (H * Q - P * 100) / (100 * Q)"
    using Q by (simp add: field_simps)
  then have "\<bar>H / 100 - P / Q\<bar> = \<bar>H * Q - P * 100\<bar> / (100 * Q)"
    using Q by (simp add: abs_mult)
  also have "\<dots> \<le> (Q / 2) / (100 * Q)"
    using e' Q by (intro divide_right_mono) simp_all
  also have "\<dots> = 1 / 200" using Q by simp
  finally have err: "\<bar>of_int h / 100 - v\<bar> \<le> 1 / 200"
    by (simp only: H_def P_def Q_def v)
  have d: "0 \<le> h div 100" "h div 100 < 10"
    using h0 h100 by (simp_all add: pos_imp_zdiv_nonneg_iff)
  have abs: "\<bar>v\<bar> = v" using v0 by simp
  have "fmt2 (Fin v) = digits (h div 100) @ ''.'' @ [digit (h mod 100 div 10), digit (h mod 10)]"
    using v0 by (simp add: fmt2_def abs pq h_def Let_def)
  then have "fmt2 (Fin v) = [''0123456789'' ! nat (h div 100), CHR ''.'',
         ''0123456789'' ! nat (h mod 100 div 10), ''0123456789'' ! nat (h mod 10)]"
    by (simp add: digits_one [OF d] digit_def)
  with h0 h100 err show ?thesis by blast
qed

lemma fmt2_one: "fmt2 (Fin 1) = ''1.00''"
  by code_simp

lemma fmt2_NaN: "fmt2 NaN = ''nan''"
  by (simp add: fmt2_def)

section \<open>The two groups of the comparison\<close>

lemma column_conv: "column f data = map (\<lambda>(i, r). (i, f r)) (zip [0..<length data] data)"
  by (simp add: column_def zip_map2 case_prod_unfold)

lemma select_zip_same:
  "select (map (\<lambda>(i, r). (i, f r)) ps) (map (\<lambda>(i, r). (i, g r)) ps)
     = map (\<lambda>(i, r). (i, f r)) (filter (\<lambda>(i, r). g r) ps)"
  by (induction ps) (auto simp: select_def)

lemma invert_conv:
  "invert (map (\<lambda>(i, r). (i, g r)) ps) = map (\<lambda>(i, r). (i, \<not> g r)) ps"
  by (simp add: invert_def case_prod_unfold)

lemma cardholders_conv:
  "expenditures_cardholders data
     = map (\<lambda>(i, r). (i, expenditure r))
         (filter (\<lambda>(i, r). card_col r) (zip [0..<length data] data))"
  by (simp add: expenditures_cardholders_def column_conv select_zip_same)

lemma noncardholders_conv:
  "expenditures_noncardholders data
     = map (\<lambda>(i, r). (i, expenditure r))
         (filter (\<lambda>(i, r). \<not> card_col r) (zip [0..<length data] data))"
  by (simp add: expenditures_noncardholders_def column_conv invert_conv select_zip_same)

lemma filter_enum_snd:
  "map snd (filter (\<lambda>(i, r). P r) (zip [a..<a + length data] data)) = filter P data"
proof (induction data arbitrary: a)
  case Nil
  then show ?case by simp
next
  case (Cons x xs)
  have "[a..<a + length (x # xs)] = a # [Suc a..<Suc a + length xs]"
    by (simp add: upt_rec)
  with Cons.IH [of "Suc a"] show ?case by simp
qed

lemma filter_enum_values:
  "map snd (filter (\<lambda>(i, r). P r) (zip [0..<length data] data)) = filter P data"
  using filter_enum_snd [of P 0 data] by simp



lemma map_snd_relabel: "map snd (map (\<lambda>(i, r). (i, f r)) ps) = map f (map snd ps)"
  by (induction ps) auto




lemma cardholders_values:
  "map snd (expenditures_cardholders data) = map expenditure (filter card_col data)"
  by (simp only: cardholders_conv map_snd_relabel filter_enum_values)

lemma noncardholders_values:
  "map snd (expenditures_noncardholders data)
     = map expenditure (filter (\<lambda>r. \<not> card_col r) data)"
  by (simp only: noncardholders_conv map_snd_relabel filter_enum_values)

lemma cardholders_length:
  "length (expenditures_cardholders data) = length (filter card_col data)"
  using arg_cong [OF cardholders_values [of data], of length] by simp

lemma noncardholders_length:
  "length (expenditures_noncardholders data) = length (filter (\<lambda>r. \<not> card_col r) data)"
  using arg_cong [OF noncardholders_values [of data], of length] by simp

lemma mean_bool_eq_zero:
  "mean_bool (eq_zero s) =
     (if s = [] then NaN
      else Fin (double_quot (length (filter (\<lambda>v. v = Fin 0) (map snd s))) (length s)))"
proof -
  have "length (filter snd (eq_zero s)) = length (filter (\<lambda>v. v = Fin 0) (map snd s))"
    by (induction s) (auto simp: eq_zero_def)
  then show ?thesis by (simp add: mean_bool_def eq_zero_def)
qed

lemma group_means:
  "mean_bool (eq_zero (expenditures_noncardholders data)) = fraction_zero False data"
  "mean_bool (eq_zero (expenditures_cardholders data)) = fraction_zero True data"
proof -
  have fm: "filter (\<lambda>v. v = Fin 0) (map expenditure rs)
      = map expenditure (filter (\<lambda>r. expenditure r = Fin 0) rs)" for rs :: "row list"
    by (simp add: filter_map comp_def)
  have e: "(xs = []) = (length xs = 0)" for xs :: "float64 series" by simp
  show "mean_bool (eq_zero (expenditures_noncardholders data)) = fraction_zero False data"
    unfolding mean_bool_eq_zero noncardholders_values fraction_zero_def Let_def
      e noncardholders_length fm
    by simp
  show "mean_bool (eq_zero (expenditures_cardholders data)) = fraction_zero True data"
    unfolding mean_bool_eq_zero cardholders_values fraction_zero_def Let_def
      e cardholders_length fm
    by simp
qed


lemma report_conv:
  "leakage_report data =
     [''Fraction of those who did not receive a card and had no expenditures: ''
        @ fmt2 (fraction_zero False data),
      ''Fraction of those who received a card and had no expenditures: ''
        @ fmt2 (fraction_zero True data)]"
  by (simp only: leakage_report_def group_means)

lemma fmt2_dq_2_100: "fmt2 (Fin (double_quot 2 100)) = ''0.02''"
  by code_simp

lemma double_quot_zero: "double_quot 0 n = 0"
proof -
  have "binade 0 (int n) 0 = 0" by (subst binade.simps) simp
  then show ?thesis by (simp add: double_quot_def rne_div_def)
qed

text \<open>
  The reported float is the exact fraction of the class up to the relative error of one
  float division.
\<close>

lemma fraction_zero_accuracy:
  assumes "fraction_zero t data = Fin v"
  shows "\<bar>v - of_nat (length (filter (\<lambda>r. card_col r = t \<and> expenditure r = Fin 0) data))
               / of_nat (length (filter (\<lambda>r. card_col r = t) data))\<bar>
         \<le> (of_nat (length (filter (\<lambda>r. card_col r = t \<and> expenditure r = Fin 0) data))
               / of_nat (length (filter (\<lambda>r. card_col r = t) data))) / 2 ^ 53"
proof -
  define k where "k = length (filter (\<lambda>r. card_col r = t \<and> expenditure r = Fin 0) data)"
  define n where "n = length (filter (\<lambda>r. card_col r = t) data)"
  have ne: "filter (\<lambda>r. card_col r = t) data \<noteq> []"
    using assms by (auto simp: fraction_zero_def Let_def split: if_splits)
  then have n: "0 < n" by (simp add: n_def)
  have v: "v = double_quot k n"
    using assms ne by (simp add: fraction_zero_def Let_def k_def n_def)
  show ?thesis
  proof (cases "k = 0")
    case True
    then show ?thesis
      unfolding k_def [symmetric] n_def [symmetric] v by (simp add: double_quot_zero)
  next
    case False
    then show ?thesis
      unfolding k_def [symmetric] n_def [symmetric] v
      using double_quot_error [of k n] n by simp
  qed
qed

lemma fraction_zero_value:
  assumes ne: "filter (\<lambda>r. card_col r = t) data \<noteq> []"
  shows "\<exists>v. fraction_zero t data = Fin v \<and> 0 \<le> v \<and> v \<le> 1
    \<and> \<bar>v - exact_fraction t data\<bar> \<le> exact_fraction t data / 2 ^ 53"
proof -
  define k where "k = length (filter (\<lambda>r. card_col r = t \<and> expenditure r = Fin 0) data)"
  define n where "n = length (filter (\<lambda>r. card_col r = t) data)"
  have n: "0 < n" using ne by (simp add: n_def)
  have "filter (\<lambda>r. expenditure r = Fin 0) (filter (\<lambda>r. card_col r = t) data)
      = filter (\<lambda>r. card_col r = t \<and> expenditure r = Fin 0) data"
    by (simp only: filter_filter)
  then have "k = length (filter (\<lambda>r. expenditure r = Fin 0) (filter (\<lambda>r. card_col r = t) data))"
    by (simp only: k_def)
  then have kn: "k \<le> n"
    unfolding n_def by (simp only: length_filter_le)
  have fz: "fraction_zero t data = Fin (double_quot k n)"
    using ne by (simp add: fraction_zero_def Let_def k_def n_def)
  have acc: "\<bar>double_quot k n - exact_fraction t data\<bar> \<le> exact_fraction t data / 2 ^ 53"
    using fraction_zero_accuracy [OF fz] by (simp only: exact_fraction_def)
  from fz double_quot_range [OF n kn] acc show ?thesis by blast
qed

text \<open>
  C9. For every frame and either target class \<open>t\<close>, the cell prints two lines, the one
  of the rows without a card first. If no row has target \<open>t\<close>, the mean of the class is
  NaN and its line ends in \<open>nan\<close>: nothing is raised. Otherwise the mean is a float
  within a relative error of \<open>2 ^ -53\<close> of the conditional fraction (the rows of the
  class with expenditure zero over the rows of the class), and its line ends in the
  decimal \<open>d.dd\<close> of the number of hundredths nearest to that float.
\<close>

theorem auditor_reports_fractions:
  "length (leakage_report data) = 2
   \<and> (filter (\<lambda>r. card_col r = t) data = [] \<longrightarrow>
        mean_bool (eq_zero (if t then expenditures_cardholders data
                            else expenditures_noncardholders data)) = NaN
        \<and> leakage_report data ! (if t then 1 else 0)
          = (if t then ''Fraction of those who received a card and had no expenditures: ''
             else ''Fraction of those who did not receive a card and had no expenditures: '')
            @ ''nan'')
   \<and> (filter (\<lambda>r. card_col r = t) data \<noteq> [] \<longrightarrow>
        (\<exists>v h. mean_bool (eq_zero (if t then expenditures_cardholders data
                                  else expenditures_noncardholders data)) = Fin v
           \<and> \<bar>v - exact_fraction t data\<bar> \<le> exact_fraction t data / 2 ^ 53
           \<and> 0 \<le> h \<and> h \<le> 100 \<and> \<bar>of_int h / 100 - v\<bar> \<le> 1 / 200
           \<and> leakage_report data ! (if t then 1 else 0)
             = (if t then ''Fraction of those who received a card and had no expenditures: ''
                else ''Fraction of those who did not receive a card and had no expenditures: '')
               @ [''0123456789'' ! nat (h div 100), CHR ''.'',
                  ''0123456789'' ! nat (h mod 100 div 10), ''0123456789'' ! nat (h mod 10)]))"
proof -
  have mean: "mean_bool (eq_zero (if t then expenditures_cardholders data
                            else expenditures_noncardholders data)) = fraction_zero t data"
    by (cases t) (simp_all add: group_means)
  have line: "leakage_report data ! (if t then 1 else 0)
      = (if t then ''Fraction of those who received a card and had no expenditures: ''
         else ''Fraction of those who did not receive a card and had no expenditures: '')
        @ fmt2 (fraction_zero t data)"
    by (cases t) (simp_all add: report_conv)
  have len: "length (leakage_report data) = 2" by (simp add: leakage_report_def)
  have empty: "fraction_zero t data = NaN" if "filter (\<lambda>r. card_col r = t) data = []"
    using that by (simp add: fraction_zero_def)
  have full: "\<exists>v h. fraction_zero t data = Fin v
           \<and> \<bar>v - exact_fraction t data\<bar> \<le> exact_fraction t data / 2 ^ 53
           \<and> 0 \<le> h \<and> h \<le> 100 \<and> \<bar>of_int h / 100 - v\<bar> \<le> 1 / 200
           \<and> fmt2 (fraction_zero t data)
             = [''0123456789'' ! nat (h div 100), CHR ''.'',
                ''0123456789'' ! nat (h mod 100 div 10), ''0123456789'' ! nat (h mod 10)]"
    if ne: "filter (\<lambda>r. card_col r = t) data \<noteq> []"
  proof -
    from fraction_zero_value [OF ne] obtain v where
      v: "fraction_zero t data = Fin v" "0 \<le> v" "v \<le> 1"
        "\<bar>v - exact_fraction t data\<bar> \<le> exact_fraction t data / 2 ^ 53"
      by blast
    from fmt2_unit [OF v(2,3)] obtain h where
      h: "0 \<le> h" "h \<le> 100" "\<bar>of_int h / 100 - v\<bar> \<le> 1 / 200"
        "fmt2 (Fin v) = [''0123456789'' ! nat (h div 100), CHR ''.'',
           ''0123456789'' ! nat (h mod 100 div 10), ''0123456789'' ! nat (h mod 10)]"
      by blast
    from v(1,4) h show ?thesis by (simp only: v(1)) blast
  qed
  show ?thesis
    unfolding mean line
  proof (intro conjI impI)
    show "length (leakage_report data) = 2" by (rule len)
  next
    assume "filter (\<lambda>r. card_col r = t) data = []"
    then show "fraction_zero t data = NaN" by (rule empty)
  next
    assume "filter (\<lambda>r. card_col r = t) data = []"
    then have "fmt2 (fraction_zero t data) = ''nan''"
      using empty fmt2_NaN by simp
    then show "(if t then ''Fraction of those who received a card and had no expenditures: ''
             else ''Fraction of those who did not receive a card and had no expenditures: '')
            @ fmt2 (fraction_zero t data)
        = (if t then ''Fraction of those who received a card and had no expenditures: ''
             else ''Fraction of those who did not receive a card and had no expenditures: '')
            @ ''nan''"
      by (simp only:)
  next
    assume "filter (\<lambda>r. card_col r = t) data \<noteq> []"
    from full [OF this] obtain v h where
      "fraction_zero t data = Fin v"
      "\<bar>v - exact_fraction t data\<bar> \<le> exact_fraction t data / 2 ^ 53"
      "0 \<le> h" "h \<le> 100" "\<bar>of_int h / 100 - v\<bar> \<le> 1 / 200"
      "fmt2 (fraction_zero t data)
             = [''0123456789'' ! nat (h div 100), CHR ''.'',
                ''0123456789'' ! nat (h mod 100 div 10), ''0123456789'' ! nat (h mod 10)]"
      by blast
    then show "\<exists>v h. fraction_zero t data = Fin v
           \<and> \<bar>v - exact_fraction t data\<bar> \<le> exact_fraction t data / 2 ^ 53
           \<and> 0 \<le> h \<and> h \<le> 100 \<and> \<bar>of_int h / 100 - v\<bar> \<le> 1 / 200
           \<and> (if t then ''Fraction of those who received a card and had no expenditures: ''
                else ''Fraction of those who did not receive a card and had no expenditures: '')
               @ fmt2 (fraction_zero t data)
             = (if t then ''Fraction of those who received a card and had no expenditures: ''
                else ''Fraction of those who did not receive a card and had no expenditures: '')
               @ [''0123456789'' ! nat (h div 100), CHR ''.'',
                  ''0123456789'' ! nat (h mod 100 div 10), ''0123456789'' ! nat (h mod 10)]"
      by (intro exI [of _ v] exI [of _ h]) (simp only: simp_thms)
  qed
qed

theorem auditor_reports_fractions_witness:
  "filter (\<lambda>r. card_col r = True) [nonholder 0, holder 0, holder 5, holder 7] \<noteq> []
   \<and> (\<exists>v h. mean_bool (eq_zero (expenditures_cardholders
                 [nonholder 0, holder 0, holder 5, holder 7])) = Fin v
        \<and> \<bar>v - exact_fraction True [nonholder 0, holder 0, holder 5, holder 7]\<bar>
            \<le> exact_fraction True [nonholder 0, holder 0, holder 5, holder 7] / 2 ^ 53
        \<and> 0 \<le> h \<and> h \<le> 100 \<and> \<bar>of_int h / 100 - v\<bar> \<le> 1 / 200
        \<and> leakage_report [nonholder 0, holder 0, holder 5, holder 7] ! 1
          = ''Fraction of those who received a card and had no expenditures: ''
            @ [''0123456789'' ! nat (h div 100), CHR ''.'',
               ''0123456789'' ! nat (h mod 100 div 10), ''0123456789'' ! nat (h mod 10)])
   \<and> exact_fraction True [nonholder 0, holder 0, holder 5, holder 7] = 1 / 3
   \<and> filter (\<lambda>r. card_col r = False) [holder 0, holder 5] = []
   \<and> mean_bool (eq_zero (expenditures_noncardholders [holder 0, holder 5])) = NaN
   \<and> leakage_report [holder 0, holder 5] ! 0
     = ''Fraction of those who did not receive a card and had no expenditures: nan''"
proof -
  have ne: "filter (\<lambda>r. card_col r = True) [nonholder 0, holder 0, holder 5, holder 7] \<noteq> []"
    by (simp add: holder_def nonholder_def)
  have e: "filter (\<lambda>r. card_col r = False) [holder 0, holder 5] = []"
    by (simp add: holder_def)
  have x: "exact_fraction True [nonholder 0, holder 0, holder 5, holder 7] = 1 / 3"
    by (simp add: exact_fraction_def holder_def nonholder_def)
  note full = auditor_reports_fractions
    [of "[nonholder 0, holder 0, holder 5, holder 7]" True,
     THEN conjunct2, THEN conjunct2, THEN mp, OF ne]
  note none = auditor_reports_fractions
    [of "[holder 0, holder 5]" False, THEN conjunct2, THEN conjunct1, THEN mp, OF e]
  from full have a: "\<exists>v h. mean_bool (eq_zero (expenditures_cardholders
                 [nonholder 0, holder 0, holder 5, holder 7])) = Fin v
        \<and> \<bar>v - exact_fraction True [nonholder 0, holder 0, holder 5, holder 7]\<bar>
            \<le> exact_fraction True [nonholder 0, holder 0, holder 5, holder 7] / 2 ^ 53
        \<and> 0 \<le> h \<and> h \<le> 100 \<and> \<bar>of_int h / 100 - v\<bar> \<le> 1 / 200
        \<and> leakage_report [nonholder 0, holder 0, holder 5, holder 7] ! 1
          = ''Fraction of those who received a card and had no expenditures: ''
            @ [''0123456789'' ! nat (h div 100), CHR ''.'',
               ''0123456789'' ! nat (h mod 100 div 10), ''0123456789'' ! nat (h mod 10)]"
    by (simp only: if_True)
  from none have b: "mean_bool (eq_zero (expenditures_noncardholders [holder 0, holder 5])) = NaN
   \<and> leakage_report [holder 0, holder 5] ! 0
     = ''Fraction of those who did not receive a card and had no expenditures: '' @ ''nan''"
    by (simp only: if_False)
  then have b': "mean_bool (eq_zero (expenditures_noncardholders [holder 0, holder 5])) = NaN
   \<and> leakage_report [holder 0, holder 5] ! 0
     = ''Fraction of those who did not receive a card and had no expenditures: nan''"
    by simp
  from ne a x e b' show ?thesis by (intro conjI) (elim conjE, assumption)+
qed

text \<open>The cell evaluated on the four rows of the witness.\<close>

lemma report_example:
  "leakage_report [nonholder 0, holder 0, holder 5, holder 7] =
     [''Fraction of those who did not receive a card and had no expenditures: 1.00'',
      ''Fraction of those who received a card and had no expenditures: 0.33'']"
  by code_simp

lemma scenario_fractions:
  assumes s: "leakage_scenario data"
  shows "fraction_zero True data = Fin (double_quot 2 100)"
    and "filter (\<lambda>r. \<not> card_col r) data \<noteq> [] \<Longrightarrow> fraction_zero False data = Fin 1"
proof -
  from s have h: "filter card_col data \<noteq> []"
    by (auto simp: leakage_scenario_def)
  from s show "fraction_zero True data = Fin (double_quot 2 100)"
    using h by (simp add: fraction_zero_def leakage_scenario_def conj_commute)
  from s have "\<forall>r \<in> set data. (\<not> card_col r \<and> expenditure r = Fin 0) = (\<not> card_col r)"
    by (auto simp: leakage_scenario_def)
  then have "filter (\<lambda>r. \<not> card_col r \<and> expenditure r = Fin 0) data
      = filter (\<lambda>r. \<not> card_col r) data"
    by (intro filter_cong) simp_all
  then have z: "filter (\<lambda>r. expenditure r = Fin 0) (filter (\<lambda>r. \<not> card_col r) data)
      = filter (\<lambda>r. \<not> card_col r) data"
    by (simp only: filter_filter)
  show "fraction_zero False data = Fin 1" if "filter (\<lambda>r. \<not> card_col r) data \<noteq> []"
    using that z double_quot_self [of "length (filter (\<lambda>r. \<not> card_col r) data)"]
    by (simp add: fraction_zero_def)
qed

text \<open>
  C6. On a frame of the scenario (rows of both classes; every row without a card has
  expenditure zero; exactly 2 of exactly 100 card holders have), the mean for the rows
  without a card is exactly 1, the mean for the card holders is the float nearest to
  2/100, and the two lines are printed with two decimals, as \<open>1.00\<close> and \<open>0.02\<close>.
\<close>

theorem leakage_scenario_report:
  assumes "leakage_scenario data" and "filter (\<lambda>r. \<not> card_col r) data \<noteq> []"
  shows "mean_bool (eq_zero (expenditures_noncardholders data)) = Fin 1
    \<and> mean_bool (eq_zero (expenditures_cardholders data)) = Fin (5764607523034235 / 2 ^ 58)
    \<and> leakage_report data =
       [''Fraction of those who did not receive a card and had no expenditures: 1.00'',
        ''Fraction of those who received a card and had no expenditures: 0.02'']"
proof -
  note f = scenario_fractions [OF assms(1)]
  have a: "mean_bool (eq_zero (expenditures_noncardholders data)) = Fin 1"
    using f(2) [OF assms(2)] by (simp only: group_means)
  have b: "mean_bool (eq_zero (expenditures_cardholders data)) = Fin (5764607523034235 / 2 ^ 58)"
    using f(1) by (simp only: group_means double_quot_2_100)
  have c: "leakage_report data =
       [''Fraction of those who did not receive a card and had no expenditures: 1.00'',
        ''Fraction of those who received a card and had no expenditures: 0.02'']"
    using f(1) f(2) [OF assms(2)] by (simp add: report_conv fmt2_one fmt2_dq_2_100)
  from a b c show ?thesis by (intro conjI)
qed

lemma scenario_example:
  "leakage_scenario (replicate 3 (nonholder 0) @ replicate 2 (holder 0) @ replicate 98 (holder 124))"
  by (simp add: leakage_scenario_def holder_def nonholder_def)

theorem leakage_scenario_report_witness:
  "leakage_scenario (replicate 3 (nonholder 0) @ replicate 2 (holder 0) @ replicate 98 (holder 124))
   \<and> filter (\<lambda>r. \<not> card_col r)
        (replicate 3 (nonholder 0) @ replicate 2 (holder 0) @ replicate 98 (holder 124)) \<noteq> []
   \<and> leakage_report (replicate 3 (nonholder 0) @ replicate 2 (holder 0) @ replicate 98 (holder 124)) =
       [''Fraction of those who did not receive a card and had no expenditures: 1.00'',
        ''Fraction of those who received a card and had no expenditures: 0.02'']"
proof -
  have ne: "filter (\<lambda>r. \<not> card_col r)
        (replicate 3 (nonholder 0) @ replicate 2 (holder 0) @ replicate 98 (holder 124)) \<noteq> []"
    by (simp add: holder_def nonholder_def)
  from leakage_scenario_report [OF scenario_example ne] scenario_example ne
  show ?thesis by (intro conjI) (elim conjE, assumption)+
qed

section \<open>The average of the scores\<close>

lemma mean_absolute_error_nonneg: "0 \<le> mean_absolute_error r"
proof -
  have "0 \<le> (\<Sum>(y, p) \<leftarrow> r. \<bar>y - p\<bar>)"
    by (rule sum_list_nonneg) auto
  then show ?thesis by (simp add: mean_absolute_error_def)
qed

lemma scores_are_raw_errors: "scores folds = map mean_absolute_error folds"
  by (simp add: scores_def cross_val_score_neg_mae_def neg_mean_absolute_error_def)

lemma np_mean_nonneg:
  assumes "\<forall>x \<in> set xs. 0 \<le> x"
  shows "(case np_mean xs of NaN \<Rightarrow> True | Fin a \<Rightarrow> 0 \<le> a)"
proof -
  have "0 \<le> sum_list xs" using assms by (intro sum_list_nonneg) auto
  then show ?thesis by (simp add: np_mean_def)
qed

text \<open>
  C4 (as amended). The library's scoring already flips the sign of each fold's mean
  absolute error; the cell multiplies the per-fold values by \<open>-1\<close> before the mean, which
  gives back the raw errors. The average it prints is the arithmetic mean of the raw
  per-fold mean absolute errors, and is never negative.
\<close>

theorem average_of_raw_errors:
  "scores folds = map (\<lambda>s. - s) (cross_val_score_neg_mae folds)
   \<and> scores folds = map mean_absolute_error folds
   \<and> average_score folds = np_mean (map mean_absolute_error folds)
   \<and> (case average_score folds of NaN \<Rightarrow> True | Fin a \<Rightarrow> 0 \<le> a)"
proof -
  have "scores folds = map (\<lambda>s. - s) (cross_val_score_neg_mae folds)"
    by (simp add: scores_def)
  moreover have "average_score folds = np_mean (map mean_absolute_error folds)"
    by (simp only: average_score_def scores_are_raw_errors)
  moreover have "(case np_mean (map mean_absolute_error folds) of NaN \<Rightarrow> True | Fin a \<Rightarrow> 0 \<le> a)"
    by (rule np_mean_nonneg) (auto simp: mean_absolute_error_nonneg)
  ultimately show ?thesis
    using scores_are_raw_errors [of folds] by simp
qed

text \<open>
  C4 as stated has the average be the mean of the negated errors. With two folds of one
  held-out row each, one predicted 1 for a target of 3 and one predicted exactly, the
  errors are 2 and 0: the cell prints the average 1, and the mean of the negated errors
  is -1.
\<close>

theorem average_not_of_negated_errors:
  "average_score [[(3, 1)], [(5, 5)]] = Fin 1
   \<and> np_mean (map (\<lambda>r. - mean_absolute_error r) [[(3, 1)], [(5, 5)]]) = Fin (- 1)"
  by (simp add: average_score_def scores_def cross_val_score_neg_mae_def
      neg_mean_absolute_error_def mean_absolute_error_def np_mean_def)

section \<open>The Fold Partitioner\<close>

lemma count_list_replicate:
  "count_list (replicate n x) y = (if x = y then n else 0)"
  by (induction n) auto

lemma blocks_Suc:
  "concat (map (\<lambda>f. replicate (g f) f) [0..<Suc k])
     = concat (map (\<lambda>f. replicate (g f) f) [0..<k]) @ replicate (g k) k"
  by simp

lemma blocks_set:
  "set (concat (map (\<lambda>f. replicate (g f) f) [0..<k])) \<subseteq> {0..<k}"
  by auto

lemma blocks_length:
  "length (concat (map (\<lambda>f. replicate (g f) f) [0..<k])) = sum_list (map g [0..<k])"
  by (induction k) simp_all

lemma blocks_count:
  "count_list (concat (map (\<lambda>f. replicate (g f) f) [0..<k])) x = (if x < k then g x else 0)"
proof (induction k)
  case 0
  then show ?case by simp
next
  case (Suc k)
  show ?case
    unfolding blocks_Suc count_list_append Suc.IH count_list_replicate
    by auto
qed

lemma blocks_sorted:
  "sorted (concat (map (\<lambda>f. replicate (g f) f) [0..<k]))"
proof (induction k)
  case 0
  then show ?case by simp
next
  case (Suc k)
  have "\<forall>x \<in> set (concat (map (\<lambda>f. replicate (g f) f) [0..<k])). \<forall>y \<in> set (replicate (g k) k). x \<le> y"
    by auto
  with Suc.IH show ?case
    unfolding blocks_Suc by (simp add: sorted_append sorted_replicate)
qed

lemma sum_indicator:
  "sum_list (map (\<lambda>f. if f < m then 1 else 0) [0..<k]) = min m k"
  by (induction k) auto

lemma sum_fold_sizes:
  assumes "0 < K"
  shows "sum_list (map (fold_size N K) [0..<K]) = N"
proof -
  have split: "sum_list (map (\<lambda>f. c + h f) [0..<k]) = k * c + sum_list (map h [0..<k])"
    for c :: nat and h k
    by (induction k) simp_all
  have "N mod K < K" using assms by simp
  then have m: "min (N mod K) K = N mod K" by simp
  have "sum_list (map (fold_size N K) [0..<K])
      = K * (N div K) + sum_list (map (\<lambda>f. if f < N mod K then 1 else 0) [0..<K])"
    unfolding fold_size_def by (rule split)
  also have "\<dots> = K * (N div K) + N mod K"
    by (simp only: sum_indicator m)
  also have "\<dots> = N" by simp
  finally show ?thesis .
qed

lemma ceiling_div:
  fixes N K :: nat
  assumes "0 < K"
  shows "(N + K - 1) div K = N div K + (if N mod K = 0 then 0 else 1)"
proof -
  define q where "q = N div K"
  define r where "r = N mod K"
  have N: "N = K * q + r"
    using mult_div_mod_eq [of K N] by (simp add: q_def r_def)
  have rK: "r < K" using assms by (simp add: r_def)
  show ?thesis
  proof (cases "r = 0")
    case True
    have "(N + K - 1) div K = q"
    proof (rule div_nat_eqI)
      show "K * q \<le> N + K - 1" using N assms by simp
      show "N + K - 1 < K * Suc q" using N True assms by simp
    qed
    with True show ?thesis by (simp add: q_def r_def)
  next
    case False
    have "(N + K - 1) div K = Suc q"
    proof (rule div_nat_eqI)
      show "K * Suc q \<le> N + K - 1" using N False by simp
      show "N + K - 1 < K * Suc (Suc q)" using N rK by simp
    qed
    with False show ?thesis by (simp add: q_def r_def)
  qed
qed

lemma fold_size_floor_ceiling:
  assumes "0 < K"
  shows "fold_size N K f = (if f < N mod K then (N + K - 1) div K else N div K)"
  using ceiling_div [OF assms, of N] by (auto simp: fold_size_def)

lemma fold_ids_facts:
  assumes "0 < K"
  shows "length (fold_ids N K) = N"
    and "set (fold_ids N K) \<subseteq> {0..<K}"
    and "sorted (fold_ids N K)"
    and "f < K \<Longrightarrow> count_list (fold_ids N K) f = fold_size N K f"
  unfolding fold_ids_def
  using sum_fold_sizes [OF assms, of N]
  by (simp_all only: blocks_length blocks_set blocks_sorted blocks_count if_True)

lemma filter_upt_interval:
  assumes "b \<le> L"
  shows "filter (\<lambda>i. a \<le> i \<and> i < b) [0..<L] = [a..<b]"
proof (rule sorted_distinct_set_unique)
  show "sorted (filter (\<lambda>i. a \<le> i \<and> i < b) [0..<L])" by (simp add: sorted_wrt_filter)
  show "distinct (filter (\<lambda>i. a \<le> i \<and> i < b) [0..<L])" by simp
  show "sorted [a..<b]" by simp
  show "distinct [a..<b]" by simp
  show "set (filter (\<lambda>i. a \<le> i \<and> i < b) [0..<L]) = set [a..<b]"
    using assms by auto
qed

lemma blocks_split:
  assumes "f < k"
  shows "concat (map (\<lambda>f. replicate (g f) f) [0..<k])
     = concat (map (\<lambda>f. replicate (g f) f) [0..<f]) @ replicate (g f) f
       @ concat (map (\<lambda>f. replicate (g f) f) [Suc f..<k])"
proof -
  have "[0..<k] = [0..<f] @ [f..<k]"
    using upt_add_eq_append [of 0 f "k - f"] assms by simp
  also have "[f..<k] = f # [Suc f..<k]"
    using assms by (rule upt_conv_Cons)
  finally show ?thesis by simp
qed

lemma blocks_nth_eq:
  assumes f: "f < k" and i: "i < length (concat (map (\<lambda>f. replicate (g f) f) [0..<k]))"
  shows "(concat (map (\<lambda>f. replicate (g f) f) [0..<k]) ! i = f)
     = (sum_list (map g [0..<f]) \<le> i \<and> i < sum_list (map g [0..<f]) + g f)"
proof -
  define A where "A = concat (map (\<lambda>f. replicate (g f) f) [0..<f])"
  define B where "B = concat (map (\<lambda>f. replicate (g f) f) [Suc f..<k])"
  have xs: "concat (map (\<lambda>f. replicate (g f) f) [0..<k]) = A @ replicate (g f) f @ B"
    unfolding A_def B_def by (rule blocks_split [OF f])
  have lenA: "length A = sum_list (map g [0..<f])"
    unfolding A_def by (induction f) simp_all
  have setA: "\<forall>x \<in> set A. x < f" unfolding A_def by auto
  have setB: "\<forall>x \<in> set B. f < x" unfolding B_def by auto
  consider (lo) "i < length A" | (mid) "length A \<le> i" "i < length A + g f"
    | (hi) "length A + g f \<le> i"
    by linarith
  then show ?thesis
  proof cases
    case lo
    then have "(A @ replicate (g f) f @ B) ! i = A ! i" by (simp add: nth_append)
    moreover have "A ! i \<in> set A" using lo by simp
    ultimately show ?thesis using setA lo lenA unfolding xs by auto
  next
    case mid
    then have "\<not> i < length A" and "i - length A < g f" by simp_all
    then have "(A @ replicate (g f) f @ B) ! i = f" by (simp add: nth_append)
    with mid lenA show ?thesis unfolding xs by simp
  next
    case hi
    then have "\<not> i < length A" and "\<not> i - length A < g f" by simp_all
    then have e: "(A @ replicate (g f) f @ B) ! i = B ! (i - length A - g f)"
      by (simp add: nth_append)
    have "i - length A - g f < length B" using i hi unfolding xs by simp
    then have "B ! (i - length A - g f) \<in> set B" by simp
    with e setB hi lenA show ?thesis unfolding xs by auto
  qed
qed

lemma held_out_block:
  assumes "f < K"
  shows "held_out_rows (fold_ids N K) f
     = [fold_start N K f ..< fold_start N K f + fold_size N K f]"
proof -
  define L where "L = length (fold_ids N K)"
  have le: "fold_start N K f + fold_size N K f \<le> L"
  proof -
    have "[0..<K] = [0..<f] @ [f..<K]"
      using upt_add_eq_append [of 0 f "K - f"] assms by simp
    also have "[f..<K] = f # [Suc f..<K]"
      using assms by (rule upt_conv_Cons)
    finally have "sum_list (map (fold_size N K) [0..<K])
        = fold_start N K f + fold_size N K f + sum_list (map (fold_size N K) [Suc f..<K])"
      by (simp add: fold_start_def)
    moreover have "L = sum_list (map (fold_size N K) [0..<K])"
      unfolding L_def fold_ids_def by (rule blocks_length)
    ultimately show ?thesis by simp
  qed
  have "filter (\<lambda>i. fold_ids N K ! i = f) [0..<L]
      = filter (\<lambda>i. fold_start N K f \<le> i \<and> i < fold_start N K f + fold_size N K f) [0..<L]"
  proof (rule filter_cong [OF refl])
    fix i assume "i \<in> set [0..<L]"
    then have "i < length (concat (map (\<lambda>f. replicate (fold_size N K f) f) [0..<K]))"
      by (simp add: L_def fold_ids_def)
    from blocks_nth_eq [OF assms this]
    show "(fold_ids N K ! i = f)
        = (fold_start N K f \<le> i \<and> i < fold_start N K f + fold_size N K f)"
      by (simp add: fold_ids_def fold_start_def)
  qed
  also have "\<dots> = [fold_start N K f ..< fold_start N K f + fold_size N K f]"
    by (rule filter_upt_interval [OF le])
  finally show ?thesis by (simp add: held_out_rows_def L_def)
qed

lemma fold_start_closed:
  "fold_start N K f = f * (N div K) + min f (N mod K)"
proof -
  have split: "sum_list (map (\<lambda>f. c + h f) [0..<k]) = k * c + sum_list (map h [0..<k])"
    for c :: nat and h k
    by (induction k) simp_all
  have ind: "sum_list (map (\<lambda>f. if f < m then 1 else 0) [0..<k]) = min m k" for m k :: nat
    by (induction k) auto
  have "fold_start N K f
      = f * (N div K) + sum_list (map (\<lambda>f. if f < N mod K then 1 else 0) [0..<f])"
    unfolding fold_start_def fold_size_def by (rule split)
  then show ?thesis by (simp add: ind min.commute)
qed

text \<open>
  C2. For \<open>2 \<le> K \<le> N\<close> the Fold Partitioner succeeds with an array of \<open>N\<close> fold ids,
  one per row index and each below \<open>K\<close>. Fold id \<open>f\<close> occurs \<open>\<lceil>N/K\<rceil>\<close> times if
  \<open>f < N mod K\<close> and \<open>\<lfloor>N/K\<rfloor>\<close> times otherwise, so the larger folds are the earliest
  ids and two fold sizes differ by at most one. The array is non-decreasing, and the
  rows of fold \<open>f\<close> are the block of consecutive indices that starts after the blocks
  of the folds before it: contiguous blocks in row order.
\<close>

theorem fold_partitioner_balanced:
  assumes "2 \<le> K" and "K \<le> N"
  shows "fold_partitioner N K = Inr (fold_ids N K)
    \<and> length (fold_ids N K) = N
    \<and> (\<forall>i < N. fold_ids N K ! i < K)
    \<and> (\<forall>f < K. count_list (fold_ids N K) f
           = (if f < N mod K then (N + K - 1) div K else N div K))
    \<and> (\<forall>f < K. \<forall>g < K. count_list (fold_ids N K) f \<le> count_list (fold_ids N K) g + 1)
    \<and> sorted (fold_ids N K)
    \<and> (\<forall>f < K. held_out_rows (fold_ids N K) f
           = [f * (N div K) + min f (N mod K)
              ..< f * (N div K) + min f (N mod K) + count_list (fold_ids N K) f])"
proof -
  have K: "0 < K" using assms by simp
  note facts = fold_ids_facts [OF K]
  have part: "fold_partitioner N K = Inr (fold_ids N K)"
    using assms by (simp add: fold_partitioner_def)
  have range: "\<forall>i < N. fold_ids N K ! i < K"
  proof (intro allI impI)
    fix i assume "i < N"
    then have "fold_ids N K ! i \<in> set (fold_ids N K)" using facts(1) [of N] by simp
    with facts(2) [of N] show "fold_ids N K ! i < K" by auto
  qed
  have count: "\<forall>f < K. count_list (fold_ids N K) f
           = (if f < N mod K then (N + K - 1) div K else N div K)"
    using facts(4) fold_size_floor_ceiling [OF K, of N] by simp
  have near: "\<forall>f < K. \<forall>g < K. count_list (fold_ids N K) f \<le> count_list (fold_ids N K) g + 1"
    using facts(4) by (simp add: fold_size_def)
  have block: "\<forall>f < K. held_out_rows (fold_ids N K) f
           = [f * (N div K) + min f (N mod K)
              ..< f * (N div K) + min f (N mod K) + count_list (fold_ids N K) f]"
    using held_out_block [of _ K N] facts(4) by (simp add: fold_start_closed)
  from part facts(1) [of N] range count near facts(3) [of N] block show ?thesis by blast
qed

theorem fold_partitioner_balanced_witness:
  "(2::nat) \<le> 5 \<and> (5::nat) \<le> 13
   \<and> fold_partitioner 13 5 = Inr [0, 0, 0, 1, 1, 1, 2, 2, 2, 3, 3, 4, 4]
   \<and> count_list (fold_ids 13 5) 2 = 3 \<and> count_list (fold_ids 13 5) 3 = 2
   \<and> sorted (fold_ids 13 5)
   \<and> held_out_rows (fold_ids 13 5) 3 = [9, 10]"
proof -
  have ids: "fold_ids 13 5 = [0, 0, 0, 1, 1, 1, 2, 2, 2, 3, 3, 4, 4]" by code_simp
  have a: "(2::nat) \<le> 5" and b: "(5::nat) \<le> 13" by simp_all
  note th = fold_partitioner_balanced [OF a b]
  from th have p: "fold_partitioner 13 5 = Inr (fold_ids 13 5)" by (elim conjE)
  from th have c: "\<forall>f < 5. count_list (fold_ids 13 5) f
           = (if f < 13 mod 5 then (13 + 5 - 1) div 5 else 13 div 5)" by (elim conjE)
  from th have s: "sorted (fold_ids 13 5)" by (elim conjE)
  from th have h: "\<forall>f < 5. held_out_rows (fold_ids 13 5) f
           = [f * (13 div 5) + min f (13 mod 5)
              ..< f * (13 div 5) + min f (13 mod 5) + count_list (fold_ids 13 5) f]"
    by (elim conjE)
  have c2: "count_list (fold_ids 13 5) 2 = 3" using c [rule_format, of 2] by simp
  have c3: "count_list (fold_ids 13 5) 3 = 2" using c [rule_format, of 3] by simp
  have "held_out_rows (fold_ids 13 5) 3 = [3 * (13 div 5) + min 3 (13 mod 5)
              ..< 3 * (13 div 5) + min 3 (13 mod 5) + 2]"
    using h [rule_format, of 3] c3 by simp
  also have "\<dots> = [9, 10]" by (simp add: upt_rec)
  finally have h3: "held_out_rows (fold_ids 13 5) 3 = [9, 10]" .
  from a b p ids c2 c3 s h3 show ?thesis by simp
qed

text \<open>
  C3. For every fold \<open>f\<close> below \<open>K\<close> of a partition of \<open>N\<close> rows, the training rows (fold
  id other than \<open>f\<close>) and the held-out rows (fold id \<open>f\<close>) have no index in common and
  together are all of \<open>0, ..., N - 1\<close>, each index once; the held-out set is not empty.
\<close>

theorem training_and_held_out_partition:
  assumes "fold_partitioner N K = Inr ids" and "f < K"
  shows "set (training_rows ids f) \<inter> set (held_out_rows ids f) = {}
    \<and> set (training_rows ids f) \<union> set (held_out_rows ids f) = {0..<N}
    \<and> distinct (training_rows ids f) \<and> distinct (held_out_rows ids f)
    \<and> held_out_rows ids f \<noteq> []"
proof -
  from assms(1) have K: "2 \<le> K" "K \<le> N" and ids: "ids = fold_ids N K"
    by (auto simp: fold_partitioner_def split: if_splits)
  then have K0: "0 < K" by simp
  have len: "length ids = N" using fold_ids_facts(1) [OF K0, of N] ids by simp
  have "count_list ids f = fold_size N K f"
    using fold_ids_facts(4) [OF K0 assms(2)] ids by simp
  moreover have "0 < N div K" using K by (simp add: div_greater_zero_iff)
  ultimately have "0 < count_list ids f" by (simp add: fold_size_def)
  then have "f \<in> set ids" by (simp add: count_list_0_iff zero_less_iff_neq_zero)
  then obtain i where "i < length ids" "ids ! i = f" by (auto simp: in_set_conv_nth)
  then have "i \<in> set (held_out_rows ids f)" by (simp add: held_out_rows_def)
  then have ne: "held_out_rows ids f \<noteq> []" by auto
  show ?thesis
    using ne len by (auto simp: training_rows_def held_out_rows_def)
qed

theorem training_and_held_out_partition_witness:
  "fold_partitioner 10 5 = Inr [0, 0, 1, 1, 2, 2, 3, 3, 4, 4] \<and> (0::nat) < 5
   \<and> held_out_rows [0, 0, 1, 1, 2, 2, 3, 3, 4, 4] 0 = [0, 1]
   \<and> training_rows [0, 0, 1, 1, 2, 2, 3, 3, 4, 4] 0 = [2, 3, 4, 5, 6, 7, 8, 9]
   \<and> set (training_rows [0, 0, 1, 1, 2, 2, 3, 3, 4, 4] 0)
       \<union> set (held_out_rows [0, 0, 1, 1, 2, 2, 3, 3, 4, 4] 0) = {0..<10}"
proof -
  have p: "fold_partitioner 10 5 = Inr [0, 0, 1, 1, 2, 2, 3, 3, 4, 4]" by code_simp
  have f: "(0::nat) < 5" by simp
  have h: "held_out_rows [0, 0, 1, 1, 2, 2, 3, 3, 4, 4] 0 = [0, 1]" by code_simp
  have t: "training_rows [0, 0, 1, 1, 2, 2, 3, 3, 4, 4] 0 = [2, 3, 4, 5, 6, 7, 8, 9]" by code_simp
  from training_and_held_out_partition [OF p f] p f h t show ?thesis by blast
qed

section \<open>The imputer inside the evaluator\<close>

lemma imputer_fit_means:
  assumes "imputer_fit ncols rows = Inr means"
  shows "means = map (\<lambda>j. column_mean (observed j rows)) [0..<ncols]"
    and "length means = ncols"
    and "j < ncols \<Longrightarrow> observed j rows \<noteq> []"
    and "j < ncols \<Longrightarrow> means ! j = column_mean (observed j rows)"
proof -
  from assms have ex: "\<not> list_ex (\<lambda>j. observed j rows = []) [0..<ncols]"
    and m: "means = map (\<lambda>j. column_mean (observed j rows)) [0..<ncols]"
    by (auto simp: imputer_fit_def split: if_splits)
  show "means = map (\<lambda>j. column_mean (observed j rows)) [0..<ncols]" by (rule m)
  show "length means = ncols" by (simp add: m)
  show "observed j rows \<noteq> []" if "j < ncols"
    using ex that by (auto simp: list_ex_iff)
  show "means ! j = column_mean (observed j rows)" if "j < ncols"
    using that by (simp add: m)
qed

lemma imputer_transform_nth:
  assumes "length means = n" and "length x = n" and "j < n"
  shows "imputer_transform means x ! j = (case x ! j of NaN \<Rightarrow> Fin (means ! j) | Fin v \<Rightarrow> Fin v)"
    and "length (imputer_transform means x) = n"
  using assms by (simp_all add: imputer_transform_def)

lemma fit_stages_lengths:
  assumes "fit_stages ncols ss rows = Inr (fs, out)"
  shows "\<forall>m \<in> set fs. length m = ncols"
  using assms
proof (induction ss arbitrary: rows fs out)
  case Nil
  then show ?case by simp
next
  case (Cons s ss)
  show ?case
  proof (cases s)
    case SimpleImputer
    with Cons.prems obtain means fs' where
      fit: "imputer_fit ncols rows = Inr means"
      and rest: "fit_stages ncols ss (map (imputer_transform means) rows) = Inr (fs', out)"
      and fs: "fs = means # fs'"
      by (auto split: sum.splits)
    from Cons.IH [OF rest] imputer_fit_means(2) [OF fit] fs show ?thesis by simp
  qed
qed

lemma apply_stages_keeps:
  assumes "\<forall>m \<in> set fs. length m = n" and "length x = n" and "j < n" and "x ! j = Fin v"
  shows "apply_stages fs x ! j = Fin v"
  using assms unfolding apply_stages_def
proof (induction fs arbitrary: x)
  case Nil
  then show ?case by simp
next
  case (Cons m fs)
  have l: "length m = n" using Cons.prems(1) by simp
  have "imputer_transform m x ! j = Fin v"
    using imputer_transform_nth(1) [OF l Cons.prems(2,3)] Cons.prems(4) by simp
  moreover have "length (imputer_transform m x) = n"
    using imputer_transform_nth(2) [OF l Cons.prems(2,3)] .
  ultimately show ?case
    using Cons.IH [of "imputer_transform m x"] Cons.prems(1,3) by simp
qed

lemma apply_stages_fills:
  assumes "\<forall>m \<in> set (means # fs). length m = n" and "length x = n" and "j < n"
    and "x ! j = NaN"
  shows "apply_stages (means # fs) x ! j = Fin (means ! j)"
proof -
  have l: "length means = n" using assms(1) by simp
  have a: "imputer_transform means x ! j = Fin (means ! j)"
    using imputer_transform_nth(1) [OF l assms(2,3)] assms(4) by simp
  have b: "length (imputer_transform means x) = n"
    using imputer_transform_nth(2) [OF l assms(2,3)] .
  have "apply_stages fs (imputer_transform means x) ! j = Fin (means ! j)"
    using apply_stages_keeps [OF _ b assms(3) a] assms(1) by simp
  then show ?thesis by (simp add: apply_stages_def)
qed

text \<open>
  C1. Let a pipeline whose first stage is the mean imputer be fitted on the training
  rows of fold \<open>f\<close>, and let a held-out row of fold \<open>f\<close> miss its cell of column \<open>j\<close>.
  Then the training rows have a non-missing value in column \<open>j\<close>, and the row the
  predictor receives has in column \<open>j\<close> exactly the arithmetic mean of the non-missing
  values of column \<open>j\<close> over the training rows. The held-out row is no training row, and
  the fitted pipeline is the same for every dataset that agrees with this one on the
  training rows, whatever its held-out rows hold.
\<close>

theorem imputer_fills_with_training_mean:
  assumes part: "fold_partitioner (length data) K = Inr ids"
    and f: "f < K"
    and first: "steps p = SimpleImputer # rest"
    and fit: "pipeline_fit ncols p (map (\<lambda>i. data ! i) (training_rows ids f)) = Inr fitted"
    and held: "i \<in> set (held_out_rows ids f)"
    and j: "j < ncols"
    and len: "length (fst (data ! i)) = ncols"
    and missing: "fst (data ! i) ! j = NaN"
  shows "observed j (map (\<lambda>i. fst (data ! i)) (training_rows ids f)) \<noteq> []
    \<and> apply_stages (fst fitted) (fst (data ! i)) ! j
        = Fin (column_mean (observed j (map (\<lambda>i. fst (data ! i)) (training_rows ids f))))
    \<and> pipeline_predict fitted (fst (data ! i))
        = snd fitted (apply_stages (fst fitted) (fst (data ! i)))
    \<and> i \<notin> set (training_rows ids f)
    \<and> (\<forall>data'. length data' = length data
          \<and> (\<forall>i \<in> set (training_rows ids f). data' ! i = data ! i)
        \<longrightarrow> pipeline_fit ncols p (map (\<lambda>i. data' ! i) (training_rows ids f)) = Inr fitted)"
proof -
  define train where "train = map (\<lambda>i. data ! i) (training_rows ids f)"
  have feats: "map fst train = map (\<lambda>i. fst (data ! i)) (training_rows ids f)"
    by (simp add: train_def)
  from fit first obtain means fs out where
    ifit: "imputer_fit ncols (map fst train) = Inr means"
    and stages: "fit_stages ncols (steps p) (map fst train) = Inr (means # fs, out)"
    and fitted: "fst fitted = means # fs"
    unfolding pipeline_fit_def train_def [symmetric]
    by (auto split: sum.splits)
  have lens: "\<forall>m \<in> set (means # fs). length m = ncols"
    using fit_stages_lengths [OF stages] .
  have obs: "observed j (map fst train) \<noteq> []"
    using imputer_fit_means(3) [OF ifit j] .
  have mean: "means ! j = column_mean (observed j (map fst train))"
    using imputer_fit_means(4) [OF ifit j] .
  have fill: "apply_stages (fst fitted) (fst (data ! i)) ! j
      = Fin (column_mean (observed j (map fst train)))"
    using apply_stages_fills [OF lens len j missing] mean fitted by simp
  have notin: "i \<notin> set (training_rows ids f)"
    using held by (simp add: held_out_rows_def training_rows_def)
  have same: "pipeline_fit ncols p (map (\<lambda>i. data' ! i) (training_rows ids f)) = Inr fitted"
    if "\<forall>i \<in> set (training_rows ids f). data' ! i = data ! i" for data'
  proof -
    have eq: "map (\<lambda>i. data' ! i) (training_rows ids f) = map (\<lambda>i. data ! i) (training_rows ids f)"
      using that by (intro map_cong) simp_all
    show ?thesis unfolding eq by (rule fit)
  qed
  from obs fill notin same show ?thesis
    unfolding feats by (simp add: pipeline_predict_def)
qed

theorem imputer_fills_with_training_mean_witness:
  "fold_partitioner (length [([NaN, Fin 1], 10), ([Fin 2, Fin 3], 20), ([Fin 4, NaN], 30), ([Fin 8, Fin 5], 50 :: rat)]) 2
      = Inr [0, 0, 1, 1]
   \<and> pipeline_fit 2 \<lparr>steps = [SimpleImputer], model = mean_target\<rparr>
        (map (\<lambda>i. [([NaN, Fin 1], 10), ([Fin 2, Fin 3], 20), ([Fin 4, NaN], 30), ([Fin 8, Fin 5], 50)] ! i)
           (training_rows [0, 0, 1, 1] 0))
      = Inr ([[6, 5]], mean_target [([Fin 4, Fin 5], 30), ([Fin 8, Fin 5], 50)])
   \<and> 0 \<in> set (held_out_rows [0, 0, 1, 1] 0)
   \<and> apply_stages [[6, 5]] [NaN, Fin 1] ! 0 = Fin 6
   \<and> column_mean (observed 0 [[Fin 4, NaN], [Fin 8, Fin 5]]) = 6"
proof -
  define data :: "sample list" where
    "data = [([NaN, Fin 1], 10), ([Fin 2, Fin 3], 20), ([Fin 4, NaN], 30), ([Fin 8, Fin 5], 50)]"
  define p where "p = \<lparr>steps = [SimpleImputer], model = mean_target\<rparr>"
  have part: "fold_partitioner (length data) 2 = Inr [0, 0, 1, 1]"
    unfolding data_def by code_simp
  have tr: "training_rows [0, 0, 1, 1] 0 = [2, 3]" by code_simp
  have ho: "held_out_rows [0, 0, 1, 1] 0 = [0, 1]" by code_simp
  have f: "(0::nat) < 2" by simp
  have first: "steps p = SimpleImputer # []" by (simp add: p_def)
  have ifit: "imputer_fit 2 [[Fin 4, NaN], [Fin 8, Fin 5]] = Inr [6, 5]" by code_simp
  have it: "imputer_transform [6, 5] [Fin 4, NaN] = [Fin 4, Fin 5]"
    "imputer_transform [6, 5] [Fin 8, Fin 5] = [Fin 8, Fin 5]"
    by (simp_all add: imputer_transform_def)
  have fit: "pipeline_fit 2 p (map (\<lambda>i. data ! i) (training_rows [0, 0, 1, 1] 0))
      = Inr ([[6, 5]], mean_target [([Fin 4, Fin 5], 30), ([Fin 8, Fin 5], 50)])"
    unfolding tr by (simp add: pipeline_fit_def p_def data_def ifit it)
  have held: "0 \<in> set (held_out_rows [0, 0, 1, 1] 0)" unfolding ho by simp
  have j: "(0::nat) < 2" by simp
  have len: "length (fst (data ! 0)) = 2" by (simp add: data_def)
  have missing: "fst (data ! 0) ! 0 = NaN" by (simp add: data_def)
  from imputer_fills_with_training_mean [OF part f first fit held j len missing]
  have "apply_stages (fst ([[6, 5]], mean_target [([Fin 4, Fin 5], 30), ([Fin 8, Fin 5], 50)]))
          (fst (data ! 0)) ! 0
      = Fin (column_mean (observed 0 (map (\<lambda>i. fst (data ! i)) (training_rows [0, 0, 1, 1] 0))))"
    by (elim conjE)
  then have "apply_stages [[6, 5]] (fst (data ! 0)) ! 0
      = Fin (column_mean (observed 0 (map (\<lambda>i. fst (data ! i)) [2, 3])))"
    unfolding tr fst_conv .
  then have "apply_stages [[6, 5]] [NaN, Fin 1] ! 0
      = Fin (column_mean (observed 0 [[Fin 4, NaN], [Fin 8, Fin 5]]))"
    by (simp add: data_def)
  moreover have "column_mean (observed 0 [[Fin 4, NaN], [Fin 8, Fin 5]]) = 6" by code_simp
  ultimately show ?thesis
    using part fit held unfolding data_def p_def by simp
qed

section \<open>Seeded and unseeded runs\<close>

text \<open>
  The forest of the Cross Validation pipeline is seeded, so for any forest algorithm
  the pipeline, and with it every score, is the same whatever the state of the
  generator of the process. The forest of the Data Leakage pipeline is not: it is
  handed that state.
\<close>

lemma seeded_pipeline_fixed:
  "cross_validation_pipeline rf a = cross_validation_pipeline rf b"
  by (simp add: cross_validation_pipeline_def generator_seed_def regressor_forest_def)

lemma seeded_scores_fixed:
  "cross_validate ncols (cross_validation_pipeline rf a) scoring data K
     = cross_validate ncols (cross_validation_pipeline rf b) scoring data K"
  by (simp only: seeded_pipeline_fixed [of rf a b])

lemma unseeded_pipeline_follows:
  "model (data_leakage_pipeline rf ambient) = rf 100 ambient"
  by (simp add: data_leakage_pipeline_def generator_seed_def classifier_forest_def)

end
